theory Spec2Isabelle
  imports
    Main
    "HOL-Library.AList"
    "HOL-Library.Char_ord"
    "HOL-Library.List_Lexorder"
    "HOL-Library.Product_Lexorder"
begin

section \<open>The environment of util.py\<close>

text \<open>
  The plugin manager \<open>Plugins\<close> and the rule engine \<open>Converter\<close> of \<open>src/util.py\<close> call
  into the regular expression library (\<open>re.compile\<close>, \<open>match\<close>, \<open>expand\<close>), the file
  system (\<open>os.path.exists\<close>), the import machinery (\<open>imp.find_module\<close>,
  \<open>imp.load_module\<close>) and the loaded plugins (\<open>convert\<close>). None of these is part of the
  file, so they are parameters, gathered in one record:
  \<^item> \<open>re_compile\<close> turns a pattern text into the object used as dictionary key; it is a
    function of the text, as \<open>re.compile\<close> is through its cache of compiled patterns;
  \<^item> \<open>re_match p s\<close> is \<open>None\<close> when \<open>p.match(s)\<close> is, else the match object;
  \<^item> \<open>find_module name dirs\<close> is \<open>None\<close> when \<open>imp.find_module\<close> raises
    \<open>ImportError\<close>, else what it found (the triple file, path, description);
  \<^item> \<open>load_module name h\<close> is \<open>None\<close> when \<open>imp.load_module\<close> raises, else the module;
  \<^item> \<open>convert m source target\<close> is \<open>m.convert(source, target, env, **args)\<close> for the
    \<open>env\<close> and \<open>args\<close> of the call, \<open>None\<close> when the result is false in a condition.
\<close>

record ('p, 'g, 'm, 'd) world =
  re_compile :: "string \<Rightarrow> 'p"
  re_match :: "'p \<Rightarrow> string \<Rightarrow> 'g option"
  re_expand :: "'g \<Rightarrow> string \<Rightarrow> string"
  exists :: "string \<Rightarrow> bool"
  find_module :: "string \<Rightarrow> string list \<Rightarrow> string option"
  load_module :: "string \<Rightarrow> string \<Rightarrow> 'm option"
  convert :: "'m \<Rightarrow> string \<Rightarrow> string \<Rightarrow> 'd option"

text \<open>The exceptions that can leave the two classes.\<close>

datatype exn =
    LoadRaised string  \<comment> \<open>whatever \<open>imp.load_module\<close> raised for the named module\<close>
  | KeyError string    \<comment> \<open>\<open>self.modules[name]\<close> for a name that is not a key\<close>

section \<open>Plugins\<close>

text \<open>
  The object has the dictionary \<open>modules\<close> and the search path \<open>path\<close> (\<open>None\<close> by
  default). \<open>load_log\<close> is not a field of the class: it lists the names given to
  \<open>imp.load_module\<close>, in order, which is what a load counter would observe.
\<close>

record 'm plugins =
  modules :: "string \<rightharpoonup> 'm"
  path :: "string list option"
  load_log :: "string list"

definition Plugins_init :: "string list option \<Rightarrow> 'm plugins" where
  "Plugins_init p = \<lparr>modules = Map.empty, path = p, load_log = []\<rparr>"

definition getitem :: "'m plugins \<Rightarrow> string \<Rightarrow> exn + 'm" where
  "getitem P name = (case modules P name of None \<Rightarrow> Inl (KeyError name) | Some m \<Rightarrow> Inr m)"

text \<open>
  The two nested \<open>try\<close> blocks of \<open>register\<close>: the current directory first, then
  \<open>self.path\<close> unless it is false (\<open>None\<close> or empty).
\<close>

definition search :: "('p, 'g, 'm, 'd) world \<Rightarrow> 'm plugins \<Rightarrow> string \<Rightarrow> string option" where
  "search W P name =
     (case find_module W name [''''] of
        Some h \<Rightarrow> Some h
      | None \<Rightarrow>
          (case path P of
             None \<Rightarrow> None
           | Some dirs \<Rightarrow> if dirs = [] then None else find_module W name dirs))"

text \<open>
  \<open>register\<close> returns 0, 1 or 2, or an exception leaves it; the registry after the call
  is returned in both cases. \<open>imp.load_module\<close> is called outside the \<open>try\<close> blocks.
\<close>

definition register ::
  "('p, 'g, 'm, 'd) world \<Rightarrow> string \<Rightarrow> 'm plugins \<Rightarrow> (exn + nat) \<times> 'm plugins" where
  "register W name P =
     (if name \<in> dom (modules P) then (Inr 2, P)
      else
        (case search W P name of
           None \<Rightarrow> (Inr 0, P)
         | Some h \<Rightarrow>
             (case load_module W name h of
                None \<Rightarrow> (Inl (LoadRaised name), P\<lparr>load_log := load_log P @ [name]\<rparr>)
              | Some m \<Rightarrow>
                  (Inr 1, P\<lparr>modules := (modules P)(name \<mapsto> m),
                             load_log := load_log P @ [name]\<rparr>))))"

definition clear :: "'m plugins \<Rightarrow> 'm plugins" where
  "clear P = P\<lparr>modules := Map.empty\<rparr>"

section \<open>Converter\<close>

type_synonym weight = int
type_synonym entry = "weight \<times> string"
type_synonym cand = "weight \<times> string \<times> string \<times> string"
type_synonym 'p rule_table = "('p \<times> (string \<times> entry list) list) list"

text \<open>
  \<open>self.rules\<close> is a dictionary from compiled patterns to dictionaries from source
  templates to lists of (weight, plugin name). A dictionary is an association list here:
  the list order is the order in which \<open>items()\<close> and \<open>keys()\<close> enumerate it. A candidate
  is the tuple (weight, source, target, plugin name) appended to \<open>conv\<close>.
\<close>

record ('p, 'm) converter =
  rules :: "'p rule_table"
  plugins :: "'m plugins"

definition Converter_init ::
  "('p, 'g, 'm, 'd) world \<Rightarrow> (string \<times> (string \<times> entry list) list) list \<Rightarrow> 'm plugins
     \<Rightarrow> ('p, 'm) converter" where
  "Converter_init W rs P =
     \<lparr>rules = fold (\<lambda>(key, val) acc. AList.update (re_compile W key) val acc) rs [],
      plugins = P\<rparr>"

text \<open>
  \<open>add_rule\<close>: \<open>dict\<close> is the mapping stored under the compiled pattern, the empty one
  when the pattern is not a key yet; the entry is put in front of the list stored under
  \<open>source\<close>, or becomes a new one-element list.
\<close>

definition add_rule ::
  "('p, 'g, 'm, 'd) world \<Rightarrow> string \<Rightarrow> string \<Rightarrow> weight \<Rightarrow> string
     \<Rightarrow> ('p, 'm) converter \<Rightarrow> ('p, 'm) converter" where
  "add_rule W target source weight module C =
     (let e = re_compile W target;
          dict = (case map_of (rules C) e of None \<Rightarrow> [] | Some d \<Rightarrow> d);
          dict' = (case map_of dict source of
                     Some l \<Rightarrow> AList.update source ((weight, module) # l) dict
                   | None \<Rightarrow> AList.update source [(weight, module)] dict)
      in C\<lparr>rules := AList.update e dict' (rules C)\<rparr>)"

definition may_produce :: "('p, 'g, 'm, 'd) world \<Rightarrow> 'p rule_table \<Rightarrow> string \<Rightarrow> bool" where
  "may_produce W R name = list_ex (\<lambda>dest. re_match W dest name \<noteq> None) (map fst R)"

text \<open>
  Modelled from the spec: the class \<open>DependLeaf\<close> is neither defined nor imported in
  \<open>util.py\<close>; it is the leaf node of the dependency graph, a node for a file that has no
  rule to produce it, built from the build context and the file name.

  What \<open>__call__\<close> returns is one of the tuples \<open>(weight, dep)\<close> and \<open>(None, None)\<close>, or
  the object \<open>DependLeaf(env, target)\<close>.
\<close>

datatype 'd retval =
    Tuple "weight option" "'d option"
  | DependLeaf string

fun is_pair :: "'d retval \<Rightarrow> bool" where
  "is_pair (Tuple a b) = True"
| "is_pair (DependLeaf t) = False"

text \<open>How a loop of \<open>__call__\<close> ends: by an exception, by \<open>return\<close>, or normally.\<close>

datatype 'd flow =
    Raised exn
  | Returned "'d retval"
  | Next "cand list"

text \<open>The loop \<open>for (weight, mod) in mods\<close>.\<close>

fun mods_loop ::
  "('p, 'g, 'm, 'd) world \<Rightarrow> string \<Rightarrow> string \<Rightarrow> entry list \<Rightarrow> 'm plugins \<Rightarrow> cand list
     \<Rightarrow> 'd flow \<times> 'm plugins" where
  "mods_loop W source target [] P conv = (Next conv, P)"
| "mods_loop W source target ((weight, md) # mods) P conv =
     (case register W md P of
        (Inl e, P') \<Rightarrow> (Raised e, P')
      | (Inr r, P') \<Rightarrow>
          if r = 0 then mods_loop W source target mods P' conv
          else mods_loop W source target mods P' (conv @ [(weight, source, target, md)]))"

text \<open>The loop \<open>for src, mods in rules.items()\<close>, for the match object \<open>m\<close>.\<close>

fun srcs_loop ::
  "('p, 'g, 'm, 'd) world \<Rightarrow> 'p rule_table \<Rightarrow> bool \<Rightarrow> string \<Rightarrow> 'g
     \<Rightarrow> (string \<times> entry list) list \<Rightarrow> 'm plugins \<Rightarrow> cand list \<Rightarrow> 'd flow \<times> 'm plugins" where
  "srcs_loop W R safe target m [] P conv = (Next conv, P)"
| "srcs_loop W R safe target m ((src, mods) # rest) P conv =
     (let source = re_expand W m src in
      if \<not> exists W source then srcs_loop W R safe target m rest P conv
      else if safe \<and> exists W target \<and> may_produce W R source
        then (Returned (DependLeaf target), P)
      else
        (case mods_loop W source target mods P conv of
           (Next conv', P') \<Rightarrow> srcs_loop W R safe target m rest P' conv'
         | (out, P') \<Rightarrow> (out, P')))"

text \<open>The loop \<open>for dest, rules in self.rules.items()\<close>.\<close>

fun dests_loop ::
  "('p, 'g, 'm, 'd) world \<Rightarrow> 'p rule_table \<Rightarrow> bool \<Rightarrow> string \<Rightarrow> 'p rule_table
     \<Rightarrow> 'm plugins \<Rightarrow> cand list \<Rightarrow> 'd flow \<times> 'm plugins" where
  "dests_loop W R safe target [] P conv = (Next conv, P)"
| "dests_loop W R safe target ((dest, rs) # rest) P conv =
     (case re_match W dest target of
        None \<Rightarrow> dests_loop W R safe target rest P conv
      | Some m \<Rightarrow>
          (case srcs_loop W R safe target m rs P conv of
             (Next conv', P') \<Rightarrow> dests_loop W R safe target rest P' conv'
           | (out, P') \<Rightarrow> (out, P')))"

text \<open>
  The loop over the sorted candidates. Beside the result it gives the candidates whose
  plugin's \<open>convert\<close> was called, in the order of the calls.
\<close>

fun try_loop ::
  "('p, 'g, 'm, 'd) world \<Rightarrow> 'm plugins \<Rightarrow> cand list \<Rightarrow> (exn + 'd retval) \<times> cand list" where
  "try_loop W P [] = (Inr (Tuple None None), [])"
| "try_loop W P ((weight, source, target, md) # conv) =
     (case getitem P md of
        Inl e \<Rightarrow> (Inl e, [])
      | Inr m \<Rightarrow>
          (case convert W m source target of
             Some dep \<Rightarrow> (Inr (Tuple (Some weight) (Some dep)), [(weight, source, target, md)])
           | None \<Rightarrow>
               (case try_loop W P conv of
                  (r, tried) \<Rightarrow> (r, (weight, source, target, md) # tried))))"

text \<open>
  \<open>__call__\<close>: the result or the exception, the \<open>convert\<close> calls made, and the converter
  after the call. \<open>conv.sort()\<close> compares the tuples as Python does: by weight, then by
  source, target and plugin name, strings byte by byte.
\<close>

definition enumerate_rules ::
  "('p, 'g, 'm, 'd) world \<Rightarrow> string \<Rightarrow> bool \<Rightarrow> ('p, 'm) converter \<Rightarrow> 'd flow \<times> 'm plugins" where
  "enumerate_rules W target safe C = dests_loop W (rules C) safe target (rules C) (plugins C) []"

definition call ::
  "('p, 'g, 'm, 'd) world \<Rightarrow> string \<Rightarrow> bool \<Rightarrow> ('p, 'm) converter
     \<Rightarrow> (exn + 'd retval) \<times> cand list \<times> ('p, 'm) converter" where
  "call W target safe C =
     (case enumerate_rules W target safe C of
        (Raised e, P') \<Rightarrow> (Inl e, [], C\<lparr>plugins := P'\<rparr>)
      | (Returned v, P') \<Rightarrow> (Inr v, [], C\<lparr>plugins := P'\<rparr>)
      | (Next conv, P') \<Rightarrow>
          (case try_loop W P' (sort conv) of
             (r, tried) \<Rightarrow> (r, tried, C\<lparr>plugins := P'\<rparr>)))"

text \<open>The components of a candidate tuple.\<close>

fun c_weight :: "cand \<Rightarrow> weight" where
  "c_weight (weight, source, target, md) = weight"

fun c_source :: "cand \<Rightarrow> string" where
  "c_source (weight, source, target, md) = source"

fun c_plugin :: "cand \<Rightarrow> string" where
  "c_plugin (weight, source, target, md) = md"

text \<open>
  What the loop over the candidates gets from \<open>self.plugins[mod].convert(source, target, ...)\<close>
  for a candidate whose plugin is in the registry; the candidate is accepted when this is a
  node.
\<close>

fun plugin_convert :: "('p, 'g, 'm, 'd) world \<Rightarrow> 'm plugins \<Rightarrow> cand \<Rightarrow> 'd option" where
  "plugin_convert W P (weight, source, target, md) =
     (case modules P md of None \<Rightarrow> None | Some m \<Rightarrow> convert W m source target)"

definition accepts :: "('p, 'g, 'm, 'd) world \<Rightarrow> 'm plugins \<Rightarrow> cand \<Rightarrow> bool" where
  "accepts W P c = (plugin_convert W P c \<noteq> None)"

text \<open>
  What holds after a run of one of the three enumeration loops that starts with the
  registry \<open>P\<close> and the candidates \<open>conv\<close> and ends with the registry \<open>P'\<close>: the search path
  is the same and the registry has only grown; an exception is the one of a module that was
  found and whose load raised; candidates were only appended, each with an existing source
  and a registered plugin.
\<close>

definition loop_post ::
  "('p, 'g, 'm, 'd) world \<Rightarrow> 'm plugins \<Rightarrow> cand list \<Rightarrow> 'd flow \<Rightarrow> 'm plugins \<Rightarrow> bool" where
  "loop_post W P conv out P' =
     (path P' = path P \<and> modules P \<subseteq>\<^sub>m modules P' \<and>
      (case out of
         Raised e \<Rightarrow>
           (\<exists>md h. e = LoadRaised md \<and> search W P md = Some h \<and> load_module W md h = None)
       | Returned v \<Rightarrow> True
       | Next conv' \<Rightarrow>
           (\<exists>new. conv' = conv @ new
              \<and> (\<forall>c\<in>set new. exists W (c_source c) \<and> c_plugin c \<in> dom (modules P')))))"

section \<open>A concrete environment\<close>

text \<open>
  For the examples: the patterns of the form \<open>(.*)literal$\<close> (a backslash quotes the
  next character of the literal) and the templates that refer to the group as
  \<open>\1\<close>, as in the rule \<open>(.*)\.pdf$\<close> with source \<open>\1.dvi\<close>. The match object is the text
  of the group. A compiled pattern is its text. The modules of \<open>installed\<close> are found in
  the current directory, those of \<open>broken\<close> raise when loaded, and those of \<open>declining\<close>
  return \<open>None\<close> from \<open>convert\<close>.
\<close>

definition bs :: char where
  "bs = CHR 0x5C"

fun literal :: "string \<Rightarrow> string option" where
  "literal [] = None"
| "literal [c] = (if c = CHR ''$'' then Some [] else None)"
| "literal (c # d # r) =
     (if c = CHR 0x5C then map_option ((#) d) (literal r)
      else map_option ((#) c) (literal (d # r)))"

definition stem_match :: "string \<Rightarrow> string \<Rightarrow> string option" where
  "stem_match p t =
     (if take 4 p = ''(.*)'' then
        (case literal (drop 4 p) of
           None \<Rightarrow> None
         | Some l \<Rightarrow>
             if length l \<le> length t \<and> drop (length t - length l) t = l
             then Some (take (length t - length l) t) else None)
      else None)"

fun stem_expand :: "string \<Rightarrow> string \<Rightarrow> string" where
  "stem_expand g [] = []"
| "stem_expand g [c] = [c]"
| "stem_expand g (c # d # r) =
     (if c = CHR 0x5C \<and> d = CHR ''1'' then g @ stem_expand g r
      else c # stem_expand g (d # r))"

definition site ::
  "string list \<Rightarrow> string list \<Rightarrow> string list \<Rightarrow> string list
     \<Rightarrow> (string, string, string, string) world" where
  "site files installed broken declining =
     \<lparr>re_compile = (\<lambda>text. text),
      re_match = stem_match,
      re_expand = stem_expand,
      exists = (\<lambda>f. f \<in> set files),
      find_module =
        (\<lambda>name dirs. if name \<in> set installed \<and> dirs = [''''] then Some (name @ ''.py'') else None),
      load_module = (\<lambda>name h. if name \<in> set broken then None else Some name),
      convert =
        (\<lambda>m source target.
           if m \<in> set declining then None else Some (m @ '' '' @ source @ '' '' @ target))\<rparr>"

definition to_pdf :: string where
  "to_pdf = ''(.*)'' @ [bs] @ ''.pdf$''"

definition to_dvi :: string where
  "to_dvi = ''(.*)'' @ [bs] @ ''.dvi$''"

definition from_dvi :: string where
  "from_dvi = [bs] @ ''1.dvi''"

definition from_tex :: string where
  "from_tex = [bs] @ ''1.tex''"

definition from_fig :: string where
  "from_fig = [bs] @ ''1.fig''"

text \<open>Rule tables for the examples, as \<open>add_rule\<close> or the constructor leave them.\<close>

definition pdf_rules :: "string rule_table" where
  "pdf_rules =
     [(to_pdf, [(from_fig, [(10, ''fig2pdf'')]), (from_dvi, [(20, ''dvipdf'')])]),
      (to_dvi, [(from_tex, [(10, ''latex'')])])]"



definition two_rules :: "string rule_table" where
  "two_rules = [(to_pdf, [(from_dvi, [(10, ''dvipdf''), (20, ''dvipdfm'')])])]"

definition fig_dvi_rules :: "string rule_table" where
  "fig_dvi_rules = [(to_pdf, [(from_fig, [(20, ''fig2pdf'')]), (from_dvi, [(10, ''dvipdf'')])])]"

text \<open>
  Two rules for the same pattern and the same source template, with the same weight:
  \<open>dvipdf\<close> is added first, \<open>dvipdfm\<close> after it.
\<close>

definition tie_converter :: "(string, string) converter" where
  "tie_converter =
     add_rule (site [] [] [] []) to_pdf from_dvi 10 ''dvipdfm''
       (add_rule (site [] [] [] []) to_pdf from_dvi 10 ''dvipdf''
          (Converter_init (site [] [] [] []) [] (Plugins_init None)))"

section \<open>The module registry\<close>

lemma register_path: "register W name P = (r, P') \<Longrightarrow> path P' = path P"
  by (auto simp: register_def split: if_splits option.splits)

lemma register_modules_le: "register W name P = (r, P') \<Longrightarrow> modules P \<subseteq>\<^sub>m modules P'"
  by (auto simp: register_def map_le_def split: if_splits option.splits)

lemma register_zero:
  "register W name P = (Inr 0, P') \<Longrightarrow> P' = P \<and> search W P name = None"
  by (auto simp: register_def split: if_splits option.splits)

lemma register_nonzero:
  "register W name P = (Inr r, P') \<Longrightarrow> r \<noteq> 0 \<Longrightarrow> name \<in> dom (modules P')"
  by (auto simp: register_def split: if_splits option.splits)

lemma register_raised:
  "register W name P = (Inl e, P') \<Longrightarrow>
     e = LoadRaised name \<and> (\<exists>h. search W P name = Some h \<and> load_module W name h = None)"
  by (auto simp: register_def split: if_splits option.splits)

lemma search_cong: "path P' = path P \<Longrightarrow> search W P' name = search W P name"
  by (simp add: search_def split: option.splits)

section \<open>The enumeration loops\<close>

lemma mods_loop_registry:
  "mods_loop W s t mods P conv = (out, P') \<Longrightarrow> path P' = path P \<and> modules P \<subseteq>\<^sub>m modules P'"
proof (induction mods arbitrary: P conv)
  case Nil
  then show ?case by simp
next
  case (Cons a mods)
  obtain w md where a: "a = (w, md)" by (cases a)
  obtain r P1 where r: "register W md P = (r, P1)" by (cases "register W md P")
  have p1: "path P1 = path P" "modules P \<subseteq>\<^sub>m modules P1"
    using register_path [OF r] register_modules_le [OF r] by simp_all
  show ?case
  proof (cases r)
    case (Inl e)
    with Cons.prems a r p1 show ?thesis by simp
  next
    case (Inr n)
    with Cons.prems a r obtain c where "mods_loop W s t mods P1 c = (out, P')"
      by (auto split: if_splits)
    from Cons.IH [OF this] p1 show ?thesis
      by (auto intro: map_le_trans)
  qed
qed

lemma mods_loop_no_return: "mods_loop W s t mods P conv \<noteq> (Returned v, P')"
proof (induction mods arbitrary: P conv)
  case Nil
  then show ?case by simp
next
  case (Cons a mods)
  then show ?case
    by (cases a) (auto split: prod.splits sum.splits)
qed

lemma mods_loop_next:
  "mods_loop W s t mods P conv = (Next conv', P') \<Longrightarrow>
     \<exists>new. conv' = conv @ new
       \<and> (\<forall>c\<in>set new. c_source c = s \<and> c_plugin c \<in> dom (modules P'))"
proof (induction mods arbitrary: P conv)
  case Nil
  then show ?case by simp
next
  case (Cons a mods)
  obtain w md where a: "a = (w, md)" by (cases a)
  obtain r P1 where r: "register W md P = (r, P1)" by (cases "register W md P")
  show ?case
  proof (cases r)
    case (Inl e)
    with Cons.prems a r show ?thesis by simp
  next
    case (Inr n)
    show ?thesis
    proof (cases "n = 0")
      case True
      with Cons.prems a r Inr have "mods_loop W s t mods P1 conv = (Next conv', P')" by simp
      from Cons.IH [OF this] show ?thesis .
    next
      case False
      with Cons.prems a r Inr
      have rest: "mods_loop W s t mods P1 (conv @ [(w, s, t, md)]) = (Next conv', P')" by simp
      from Cons.IH [OF rest] obtain new where
        new: "conv' = (conv @ [(w, s, t, md)]) @ new"
             "\<forall>c\<in>set new. c_source c = s \<and> c_plugin c \<in> dom (modules P')"
        by blast
      have "md \<in> dom (modules P1)" using register_nonzero r Inr False by blast
      moreover have "modules P1 \<subseteq>\<^sub>m modules P'" using mods_loop_registry [OF rest] by simp
      ultimately have "md \<in> dom (modules P')" by (auto simp: map_le_def dom_def)
      with new show ?thesis
        by (intro exI [of _ "(w, s, t, md) # new"]) simp
    qed
  qed
qed

lemma mods_loop_registered:
  "mods_loop W s t mods P conv = (Next conv', P') \<Longrightarrow> (w, md) \<in> set mods \<Longrightarrow>
     md \<in> dom (modules P') \<or> search W P md = None"
proof (induction mods arbitrary: P conv)
  case Nil
  then show ?case by simp
next
  case (Cons a mods)
  obtain w0 md0 where a: "a = (w0, md0)" by (cases a)
  obtain r P1 where r: "register W md0 P = (r, P1)" by (cases "register W md0 P")
  from Cons.prems a r obtain n c where
    n: "r = Inr n" and rest: "mods_loop W s t mods P1 c = (Next conv', P')"
    by (cases r) (auto split: if_splits)
  have le: "modules P1 \<subseteq>\<^sub>m modules P'" using mods_loop_registry [OF rest] by simp
  have p1: "path P1 = path P" using register_path [OF r] .
  show ?case
  proof (cases "(w, md) = (w0, md0)")
    case True
    show ?thesis
    proof (cases "n = 0")
      case True
      with r n have "search W P md0 = None" using register_zero by blast
      with \<open>(w, md) = (w0, md0)\<close> show ?thesis by simp
    next
      case False
      with r n have "md0 \<in> dom (modules P1)" using register_nonzero by blast
      with le have "md0 \<in> dom (modules P')" by (auto simp: map_le_def dom_def)
      with \<open>(w, md) = (w0, md0)\<close> show ?thesis by simp
    qed
  next
    case False
    with Cons.prems(2) a have "(w, md) \<in> set mods" by auto
    from Cons.IH [OF rest this] search_cong [OF p1] show ?thesis by metis
  qed
qed

lemma mods_loop_raised:
  "mods_loop W s t mods P conv = (Raised e, P') \<Longrightarrow>
     \<exists>md h. e = LoadRaised md \<and> search W P md = Some h \<and> load_module W md h = None"
proof (induction mods arbitrary: P conv)
  case Nil
  then show ?case by simp
next
  case (Cons a mods)
  obtain w0 md0 where a: "a = (w0, md0)" by (cases a)
  obtain r P1 where r: "register W md0 P = (r, P1)" by (cases "register W md0 P")
  have p1: "path P1 = path P" using register_path [OF r] .
  show ?case
  proof (cases r)
    case (Inl e')
    with Cons.prems a r have "e' = e" by simp
    with r Inl register_raised show ?thesis by blast
  next
    case (Inr n)
    with Cons.prems a r obtain c where "mods_loop W s t mods P1 c = (Raised e, P')"
      by (auto split: if_splits)
    from Cons.IH [OF this] search_cong [OF p1] show ?thesis by metis
  qed
qed

lemma post_refl: "loop_post W P conv (Next conv) P"
  by (simp add: loop_post_def)

lemma post_trans:
  assumes "loop_post W P conv (Next conv1) P1" and "loop_post W P1 conv1 out P'"
  shows "loop_post W P conv out P'"
proof -
  have p: "path P1 = path P" "path P' = path P1"
    and le: "modules P \<subseteq>\<^sub>m modules P1" "modules P1 \<subseteq>\<^sub>m modules P'"
    using assms by (simp_all add: loop_post_def)
  have s: "\<And>md. search W P1 md = search W P md" using search_cong p(1) by blast
  have d: "dom (modules P1) \<subseteq> dom (modules P')" using le(2) by (rule map_le_implies_dom_le)
  show ?thesis
  proof (cases out)
    case (Raised e)
    with assms p le s show ?thesis by (auto simp: loop_post_def intro: map_le_trans)
  next
    case (Returned v)
    with p le show ?thesis by (auto simp: loop_post_def intro: map_le_trans)
  next
    case (Next conv')
    from assms(1) obtain n1 where n1: "conv1 = conv @ n1"
      "\<forall>c\<in>set n1. exists W (c_source c) \<and> c_plugin c \<in> dom (modules P1)"
      by (auto simp: loop_post_def)
    from assms(2) Next obtain n2 where n2: "conv' = conv1 @ n2"
      "\<forall>c\<in>set n2. exists W (c_source c) \<and> c_plugin c \<in> dom (modules P')"
      by (auto simp: loop_post_def)
    have "conv' = conv @ (n1 @ n2)" using n1 n2 by simp
    moreover have "\<forall>c\<in>set (n1 @ n2). exists W (c_source c) \<and> c_plugin c \<in> dom (modules P')"
      using n1(2) n2(2) d unfolding set_append ball_Un by blast
    ultimately show ?thesis using Next p le
      unfolding loop_post_def by (auto intro: map_le_trans)
  qed
qed

lemma mods_loop_post:
  assumes "exists W s" and "mods_loop W s t mods P conv = (out, P')"
  shows "loop_post W P conv out P'"
proof (cases out)
  case (Raised e)
  with assms(2) mods_loop_registry [OF assms(2)] mods_loop_raised show ?thesis
    unfolding loop_post_def by fastforce
next
  case (Returned v)
  with assms(2) mods_loop_no_return show ?thesis by blast
next
  case (Next conv')
  with assms(2) have "mods_loop W s t mods P conv = (Next conv', P')" by simp
  from mods_loop_next [OF this] assms(1) Next mods_loop_registry [OF assms(2)] show ?thesis
    unfolding loop_post_def by auto
qed

lemma srcs_loop_post:
  "srcs_loop W R safe t g items P conv = (out, P') \<Longrightarrow> loop_post W P conv out P'"
proof (induction items arbitrary: P conv)
  case Nil
  then show ?case by (auto simp: loop_post_def)
next
  case (Cons a items)
  obtain src mods where a: "a = (src, mods)" by (cases a)
  let ?s = "re_expand W g src"
  show ?case
  proof (cases "exists W ?s")
    case False
    with Cons.prems a have "srcs_loop W R safe t g items P conv = (out, P')" by simp
    from Cons.IH [OF this] show ?thesis .
  next
    case True
    show ?thesis
    proof (cases "safe \<and> exists W t \<and> may_produce W R ?s")
      case True
      with \<open>exists W ?s\<close> Cons.prems a show ?thesis by (auto simp: loop_post_def)
    next
      case False
      obtain o1 P1 where m: "mods_loop W ?s t mods P conv = (o1, P1)"
        by (cases "mods_loop W ?s t mods P conv")
      have p1: "loop_post W P conv o1 P1" using mods_loop_post [OF True m] .
      show ?thesis
      proof (cases o1)
        case (Next conv1)
        with Cons.prems a True False m
        have "srcs_loop W R safe t g items P1 conv1 = (out, P')" by auto
        from Cons.IH [OF this] p1 Next show ?thesis using post_trans by blast
      next
        case (Raised e)
        with Cons.prems a True False m have "out = o1" "P' = P1" by auto
        with p1 show ?thesis by simp
      next
        case (Returned v)
        with Cons.prems a True False m have "out = o1" "P' = P1" by auto
        with p1 show ?thesis by simp
      qed
    qed
  qed
qed

lemma dests_loop_post:
  "dests_loop W R safe t ds P conv = (out, P') \<Longrightarrow> loop_post W P conv out P'"
proof (induction ds arbitrary: P conv)
  case Nil
  then show ?case by (auto simp: loop_post_def)
next
  case (Cons a ds)
  obtain dest items where a: "a = (dest, items)" by (cases a)
  show ?case
  proof (cases "re_match W dest t")
    case None
    with Cons.prems a have "dests_loop W R safe t ds P conv = (out, P')" by simp
    from Cons.IH [OF this] show ?thesis .
  next
    case (Some g)
    obtain o1 P1 where m: "srcs_loop W R safe t g items P conv = (o1, P1)"
      by (cases "srcs_loop W R safe t g items P conv")
    have p1: "loop_post W P conv o1 P1" using srcs_loop_post [OF m] .
    show ?thesis
    proof (cases o1)
      case (Next conv1)
      with Cons.prems a Some m
      have "dests_loop W R safe t ds P1 conv1 = (out, P')" by auto
      from Cons.IH [OF this] p1 Next show ?thesis using post_trans by blast
    next
      case (Raised e)
      with Cons.prems a Some m have "out = o1" "P' = P1" by auto
      with p1 show ?thesis by simp
    next
      case (Returned v)
      with Cons.prems a Some m have "out = o1" "P' = P1" by auto
      with p1 show ?thesis by simp
    qed
  qed
qed

lemma post_dom: "loop_post W P conv out P' \<Longrightarrow> md \<in> dom (modules P) \<Longrightarrow> md \<in> dom (modules P')"
  unfolding loop_post_def using map_le_implies_dom_le by blast

lemma post_search: "loop_post W P conv out P' \<Longrightarrow> search W P' md = search W P md"
  unfolding loop_post_def using search_cong by blast

lemma srcs_loop_registered:
  "srcs_loop W R safe t g items P conv = (Next conv', P') \<Longrightarrow>
   (src, mods) \<in> set items \<Longrightarrow> exists W (re_expand W g src) \<Longrightarrow> (w, md) \<in> set mods \<Longrightarrow>
     md \<in> dom (modules P') \<or> search W P md = None"
proof (induction items arbitrary: P conv)
  case Nil
  then show ?case by simp
next
  case (Cons a items)
  obtain src0 mods0 where a: "a = (src0, mods0)" by (cases a)
  let ?s = "re_expand W g src0"
  show ?case
  proof (cases "exists W ?s")
    case False
    with Cons.prems(1) a have rest: "srcs_loop W R safe t g items P conv = (Next conv', P')"
      by simp
    from False Cons.prems(2,3) a have "(src, mods) \<in> set items" by auto
    from Cons.IH [OF rest this Cons.prems(3,4)] show ?thesis .
  next
    case True
    from Cons.prems(1) a True have nl: "\<not> (safe \<and> exists W t \<and> may_produce W R ?s)"
      by (auto split: if_splits)
    obtain o1 P1 where m: "mods_loop W ?s t mods0 P conv = (o1, P1)"
      by (cases "mods_loop W ?s t mods0 P conv")
    from Cons.prems(1) a True nl m obtain conv1 where
      o1: "o1 = Next conv1" and rest: "srcs_loop W R safe t g items P1 conv1 = (Next conv', P')"
      by (cases o1) auto
    have p1: "loop_post W P conv o1 P1" using mods_loop_post [OF True m] .
    have p2: "loop_post W P1 conv1 (Next conv') P'" using srcs_loop_post [OF rest] .
    show ?thesis
    proof (cases "(src, mods) = (src0, mods0)")
      case True
      with m o1 have "mods_loop W ?s t mods P conv = (Next conv1, P1)" by simp
      from mods_loop_registered [OF this Cons.prems(4)]
      have "md \<in> dom (modules P1) \<or> search W P md = None" .
      with post_dom [OF p2] show ?thesis by auto
    next
      case False
      with Cons.prems(2) a have "(src, mods) \<in> set items" by auto
      from Cons.IH [OF rest this Cons.prems(3,4)] post_search [OF p1] show ?thesis by metis
    qed
  qed
qed

lemma dests_loop_registered:
  "dests_loop W R safe t ds P conv = (Next conv', P') \<Longrightarrow>
   (dest, items) \<in> set ds \<Longrightarrow> re_match W dest t = Some g \<Longrightarrow>
   (src, mods) \<in> set items \<Longrightarrow> exists W (re_expand W g src) \<Longrightarrow> (w, md) \<in> set mods \<Longrightarrow>
     md \<in> dom (modules P') \<or> search W P md = None"
proof (induction ds arbitrary: P conv)
  case Nil
  then show ?case by simp
next
  case (Cons a ds)
  obtain dest0 items0 where a: "a = (dest0, items0)" by (cases a)
  show ?case
  proof (cases "re_match W dest0 t")
    case None
    with Cons.prems(1) a have rest: "dests_loop W R safe t ds P conv = (Next conv', P')"
      by simp
    from None Cons.prems(2,3) a have "(dest, items) \<in> set ds" by auto
    from Cons.IH [OF rest this Cons.prems(3-6)] show ?thesis .
  next
    case (Some g0)
    obtain o1 P1 where m: "srcs_loop W R safe t g0 items0 P conv = (o1, P1)"
      by (cases "srcs_loop W R safe t g0 items0 P conv")
    from Cons.prems(1) a Some m obtain conv1 where
      o1: "o1 = Next conv1" and rest: "dests_loop W R safe t ds P1 conv1 = (Next conv', P')"
      by (cases o1) auto
    have p1: "loop_post W P conv o1 P1" using srcs_loop_post [OF m] .
    have p2: "loop_post W P1 conv1 (Next conv') P'" using dests_loop_post [OF rest] .
    show ?thesis
    proof (cases "(dest, items) = (dest0, items0)")
      case True
      with Some Cons.prems(3) have "g0 = g" by simp
      with True m o1 have "srcs_loop W R safe t g items P conv = (Next conv1, P1)" by simp
      from srcs_loop_registered [OF this Cons.prems(4-6)]
      have "md \<in> dom (modules P1) \<or> search W P md = None" .
      with post_dom [OF p2] show ?thesis by auto
    next
      case False
      with Cons.prems(2) a have "(dest, items) \<in> set ds" by auto
      from Cons.IH [OF rest this Cons.prems(3-6)] post_search [OF p1] show ?thesis by metis
    qed
  qed
qed

lemma srcs_loop_returned:
  "srcs_loop W R safe t g items P conv = (Returned v, P') \<Longrightarrow> v = DependLeaf t"
proof (induction items arbitrary: P conv)
  case Nil
  then show ?case by simp
next
  case (Cons a items)
  obtain src0 mods0 where a: "a = (src0, mods0)" by (cases a)
  let ?s = "re_expand W g src0"
  show ?case
  proof (cases "exists W ?s")
    case False
    with Cons.prems a have "srcs_loop W R safe t g items P conv = (Returned v, P')" by simp
    from Cons.IH [OF this] show ?thesis .
  next
    case True
    show ?thesis
    proof (cases "safe \<and> exists W t \<and> may_produce W R ?s")
      case True
      with \<open>exists W ?s\<close> Cons.prems a show ?thesis by auto
    next
      case False
      obtain o1 P1 where m: "mods_loop W ?s t mods0 P conv = (o1, P1)"
        by (cases "mods_loop W ?s t mods0 P conv")
      show ?thesis
      proof (cases o1)
        case (Next conv1)
        with Cons.prems a True False m
        have "srcs_loop W R safe t g items P1 conv1 = (Returned v, P')" by auto
        from Cons.IH [OF this] show ?thesis .
      next
        case (Raised e)
        with Cons.prems a True False m show ?thesis by auto
      next
        case (Returned v')
        with m mods_loop_no_return show ?thesis by blast
      qed
    qed
  qed
qed

lemma dests_loop_returned:
  "dests_loop W R safe t ds P conv = (Returned v, P') \<Longrightarrow> v = DependLeaf t"
proof (induction ds arbitrary: P conv)
  case Nil
  then show ?case by simp
next
  case (Cons a ds)
  obtain dest0 items0 where a: "a = (dest0, items0)" by (cases a)
  show ?case
  proof (cases "re_match W dest0 t")
    case None
    with Cons.prems a have "dests_loop W R safe t ds P conv = (Returned v, P')" by simp
    from Cons.IH [OF this] show ?thesis .
  next
    case (Some g0)
    obtain o1 P1 where m: "srcs_loop W R safe t g0 items0 P conv = (o1, P1)"
      by (cases "srcs_loop W R safe t g0 items0 P conv")
    show ?thesis
    proof (cases o1)
      case (Next conv1)
      with Cons.prems a Some m
      have "dests_loop W R safe t ds P1 conv1 = (Returned v, P')" by auto
      from Cons.IH [OF this] show ?thesis .
    next
      case (Raised e)
      with Cons.prems a Some m show ?thesis by auto
    next
      case (Returned v')
      with Cons.prems a Some m have "srcs_loop W R safe t g0 items0 P conv = (Returned v, P1)"
        by auto
      from srcs_loop_returned [OF this] show ?thesis .
    qed
  qed
qed



section \<open>The loop over the sorted candidates\<close>

lemma try_loop_prefix: "try_loop W P conv = (r, tried) \<Longrightarrow> \<exists>rest. conv = tried @ rest"
proof (induction conv arbitrary: r tried)
  case Nil
  then show ?case by simp
next
  case (Cons c conv)
  obtain w s t md where c: "c = (w, s, t, md)" by (cases c)
  obtain r1 t1 where rest: "try_loop W P conv = (r1, t1)" by (cases "try_loop W P conv")
  from Cons.IH [OF rest] obtain rest' where "conv = t1 @ rest'" by blast
  with Cons.prems c rest show ?case
    by (auto simp: getitem_def split: option.splits)
qed

lemma try_loop_result:
  assumes "\<forall>c\<in>set conv. c_plugin c \<in> dom (modules P)"
    and "try_loop W P conv = (r, tried)"
  shows "(r = Inr (Tuple None None) \<and> tried = conv \<and> (\<forall>c\<in>set conv. plugin_convert W P c = None))
       \<or> (\<exists>pre c d rest. conv = pre @ c # rest \<and> tried = pre @ [c]
             \<and> (\<forall>x\<in>set pre. plugin_convert W P x = None)
             \<and> plugin_convert W P c = Some d
             \<and> r = Inr (Tuple (Some (c_weight c)) (Some d)))"
  using assms
proof (induction conv arbitrary: r tried)
  case Nil
  then show ?case by simp
next
  case (Cons c conv)
  obtain w s t md where c: "c = (w, s, t, md)" by (cases c)
  from Cons.prems(1) c obtain m where m: "modules P md = Some m" by auto
  show ?case
  proof (cases "convert W m s t")
    case (Some d)
    with Cons.prems(2) c m have "r = Inr (Tuple (Some w) (Some d))" "tried = [c]"
      by (simp_all add: getitem_def)
    moreover have "plugin_convert W P c = Some d" using c m Some by simp
    ultimately have "c # conv = [] @ c # conv \<and> tried = [] @ [c]
        \<and> (\<forall>x\<in>set []. plugin_convert W P x = None)
        \<and> plugin_convert W P c = Some d
        \<and> r = Inr (Tuple (Some (c_weight c)) (Some d))"
      using c by simp
    then show ?thesis by blast
  next
    case None
    obtain r1 t1 where rest: "try_loop W P conv = (r1, t1)" by (cases "try_loop W P conv")
    with Cons.prems(2) c m None have rt: "r = r1" "tried = c # t1"
      by (simp_all add: getitem_def)
    have cn: "plugin_convert W P c = None" using c m None by simp
    from Cons.prems(1) have "\<forall>c\<in>set conv. c_plugin c \<in> dom (modules P)" by simp
    from Cons.IH [OF this rest]
    consider "r1 = Inr (Tuple None None)" "t1 = conv" "\<forall>c\<in>set conv. plugin_convert W P c = None"
      | pre c' d rest' where "conv = pre @ c' # rest'" "t1 = pre @ [c']"
          "\<forall>x\<in>set pre. plugin_convert W P x = None" "plugin_convert W P c' = Some d"
          "r1 = Inr (Tuple (Some (c_weight c')) (Some d))"
      by blast
    then show ?thesis
    proof cases
      case 1
      with rt cn show ?thesis by simp
    next
      case 2
      with rt cn have "c # conv = (c # pre) @ c' # rest' \<and> tried = (c # pre) @ [c']
        \<and> (\<forall>x\<in>set (c # pre). plugin_convert W P x = None)
        \<and> plugin_convert W P c' = Some d
        \<and> r = Inr (Tuple (Some (c_weight c')) (Some d))"
        by simp
      then show ?thesis by blast
    qed
  qed
qed

lemma weight_less: "c_weight c1 < c_weight c2 \<Longrightarrow> c1 < c2"
  by (cases c1, cases c2) (simp add: less_prod_def)

lemma weight_mono: "c1 \<le> c2 \<Longrightarrow> c_weight c1 \<le> c_weight c2"
  by (cases c1, cases c2) (auto simp: less_eq_prod_def)

lemma sorted_before:
  fixes c1 c2 :: cand
  assumes "sorted (pre @ c2 # suf)" and "c1 \<in> set (pre @ c2 # suf)" and "c1 < c2"
  shows "c1 \<in> set pre"
  using assms by (auto simp: sorted_append)

section \<open>The examples, evaluated\<close>

lemma match_pdf_pdf: "stem_match to_pdf ''doc.pdf'' = Some ''doc''"
  by (simp add: stem_match_def to_pdf_def bs_def)

lemma match_dvi_pdf: "stem_match to_dvi ''doc.pdf'' = None"
  by (simp add: stem_match_def to_dvi_def bs_def)

lemma match_dvi_dvi: "stem_match to_dvi ''doc.dvi'' = Some ''doc''"
  by (simp add: stem_match_def to_dvi_def bs_def)

lemma match_pdf_dvi: "stem_match to_pdf ''doc.dvi'' = None"
  by (simp add: stem_match_def to_pdf_def bs_def)

lemma match_pdf_fig: "stem_match to_pdf ''doc.fig'' = None"
  by (simp add: stem_match_def to_pdf_def bs_def)

lemma match_dvi_fig: "stem_match to_dvi ''doc.fig'' = None"
  by (simp add: stem_match_def to_dvi_def bs_def)

lemma expand_dvi: "stem_expand ''doc'' from_dvi = ''doc.dvi''"
  by (simp add: from_dvi_def bs_def)

lemma expand_fig: "stem_expand ''doc'' from_fig = ''doc.fig''"
  by (simp add: from_fig_def bs_def)

lemma expand_tex: "stem_expand ''doc'' from_tex = ''doc.tex''"
  by (simp add: from_tex_def bs_def)



lemmas ev =
  match_pdf_pdf match_dvi_pdf match_dvi_dvi match_pdf_dvi match_pdf_fig match_dvi_fig
  expand_dvi expand_fig expand_tex

lemma enumerate_post:
  "enumerate_rules W target safe C = (out, P') \<Longrightarrow> loop_post W (plugins C) [] out P'"
  unfolding enumerate_rules_def by (rule dests_loop_post)

lemma call_next:
  assumes "enumerate_rules W target safe C = (Next conv, P')"
  shows "call W target safe C
           = (fst (try_loop W P' (sort conv)), snd (try_loop W P' (sort conv)), C\<lparr>plugins := P'\<rparr>)"
  using assms by (simp add: call_def split: prod.splits)

lemma enumerate_next:
  assumes "enumerate_rules W target safe C = (Next conv, P')"
  shows "\<forall>c\<in>set conv. exists W (c_source c) \<and> c_plugin c \<in> dom (modules P')"
  using enumerate_post [OF assms] by (auto simp: loop_post_def)

lemma fig_dvi_enumerate:
  "enumerate_rules (site [''doc.fig'', ''doc.dvi''] [''fig2pdf'', ''dvipdf''] [] []) ''doc.pdf'' False
        \<lparr>rules = fig_dvi_rules, plugins = Plugins_init None\<rparr>
     = (Next [(20, ''doc.fig'', ''doc.pdf'', ''fig2pdf''), (10, ''doc.dvi'', ''doc.pdf'', ''dvipdf'')],
        \<lparr>modules = [''fig2pdf'' \<mapsto> ''fig2pdf'', ''dvipdf'' \<mapsto> ''dvipdf''],
         path = None, load_log = [''fig2pdf'', ''dvipdf'']\<rparr>)"
  by (simp add: enumerate_rules_def fig_dvi_rules_def site_def ev register_def search_def
      Plugins_init_def Let_def)

lemma fig_dvi_call:
  "call (site [''doc.fig'', ''doc.dvi''] [''fig2pdf'', ''dvipdf''] [] []) ''doc.pdf'' False
        \<lparr>rules = fig_dvi_rules, plugins = Plugins_init None\<rparr>
     = (Inr (Tuple (Some 10) (Some ''dvipdf doc.dvi doc.pdf'')),
        [(10, ''doc.dvi'', ''doc.pdf'', ''dvipdf'')],
        \<lparr>rules = fig_dvi_rules,
         plugins = \<lparr>modules = [''fig2pdf'' \<mapsto> ''fig2pdf'', ''dvipdf'' \<mapsto> ''dvipdf''],
                    path = None, load_log = [''fig2pdf'', ''dvipdf'']\<rparr>\<rparr>)"
  by (simp add: call_def fig_dvi_enumerate) (simp add: site_def getitem_def)

lemma tie_rules: "rules tie_converter = [(to_pdf, [(from_dvi, [(10, ''dvipdfm''), (10, ''dvipdf'')])])]"
  by (simp add: tie_converter_def add_rule_def Converter_init_def site_def Let_def)

lemma tie_plugins: "plugins tie_converter = Plugins_init None"
  by (simp add: tie_converter_def add_rule_def Converter_init_def Let_def)

section \<open>Safe mode\<close>




section \<open>The order of the attempts\<close>

text \<open>
  C4: when the enumeration has recorded the candidates \<open>c1\<close> and \<open>c2\<close> with the weight of
  \<open>c1\<close> below the weight of \<open>c2\<close>, a call of \<open>convert\<close> for \<open>c2\<close> comes only after one for
  \<open>c1\<close>; and when the plugin of \<open>c1\<close> accepts, \<open>convert\<close> is never called for \<open>c2\<close>, and the
  call returns a node with a weight that is at most the weight of \<open>c1\<close>, so not the node of
  \<open>c2\<close>.
\<close>

theorem weight_order:
  assumes "enumerate_rules W target safe C = (Next conv, P')"
    and "c1 \<in> set conv" and "c2 \<in> set conv" and "c_weight c1 < c_weight c2"
    and "call W target safe C = (r, tried, C')"
  shows "(\<forall>pre suf. tried = pre @ c2 # suf \<longrightarrow> c1 \<in> set pre)
       \<and> (accepts W P' c1 \<longrightarrow>
            c2 \<notin> set tried
          \<and> (\<exists>w d. r = Inr (Tuple (Some w) (Some d)) \<and> w \<le> c_weight c1))"
proof -
  let ?l = "sort conv"
  have t: "try_loop W P' ?l = (r, tried)"
    using call_next [OF assms(1)] assms(5) by (simp add: prod_eq_iff)
  have lt: "c1 < c2" using assms(4) by (rule weight_less)
  have in1: "c1 \<in> set ?l" and in2: "c2 \<in> set ?l" using assms(2,3) by simp_all
  have srt: "sorted ?l" by simp
  obtain rest where l: "?l = tried @ rest" using try_loop_prefix [OF t] by blast
  have first: "c1 \<in> set pre" if "tried = pre @ c2 # suf" for pre suf
  proof -
    from l that have "?l = pre @ c2 # (suf @ rest)" by simp
    with srt in1 lt sorted_before [of pre c2 "suf @ rest" c1] show ?thesis by simp
  qed
  have second: "c2 \<notin> set tried \<and> (\<exists>w d. r = Inr (Tuple (Some w) (Some d)) \<and> w \<le> c_weight c1)"
    if acc: "accepts W P' c1"
  proof -
    have reg: "\<forall>c\<in>set ?l. c_plugin c \<in> dom (modules P')"
      using enumerate_next [OF assms(1)] by simp
    from acc in1 have "\<not> (\<forall>c\<in>set ?l. plugin_convert W P' c = None)"
      by (auto simp: accepts_def)
    with try_loop_result [OF reg t] obtain pre c d rest' where
      p: "?l = pre @ c # rest'" "tried = pre @ [c]"
         "\<forall>x\<in>set pre. plugin_convert W P' x = None"
         "r = Inr (Tuple (Some (c_weight c)) (Some d))"
      by blast
    from acc p(3) have "c1 \<notin> set pre" by (auto simp: accepts_def)
    with in1 p(1) have "c1 \<in> set (c # rest')" by auto
    with srt p(1) have le: "c \<le> c1" by (auto simp: sorted_append)
    then have w: "c_weight c \<le> c_weight c1" by (rule weight_mono)
    have "c2 \<notin> set tried"
    proof
      assume "c2 \<in> set tried"
      with p(2) have "c2 \<in> set pre \<or> c2 = c" by auto
      with srt p(1) have "c2 \<le> c" by (auto simp: sorted_append)
      with le lt show False by simp
    qed
    with p(4) w show ?thesis by blast
  qed
  from first second show ?thesis by blast
qed

theorem weight_order_witness:
  "accepts (site [''doc.fig'', ''doc.dvi''] [''fig2pdf'', ''dvipdf''] [] [])
        \<lparr>modules = [''fig2pdf'' \<mapsto> ''fig2pdf'', ''dvipdf'' \<mapsto> ''dvipdf''],
         path = None, load_log = [''fig2pdf'', ''dvipdf'']\<rparr>
        (10, ''doc.dvi'', ''doc.pdf'', ''dvipdf'')
   \<and> (20, ''doc.fig'', ''doc.pdf'', ''fig2pdf'') \<notin> set [(10, ''doc.dvi'', ''doc.pdf'', ''dvipdf'')]
   \<and> (\<exists>w d. (Inr (Tuple (Some 10) (Some ''dvipdf doc.dvi doc.pdf'')) :: exn + string retval)
               = Inr (Tuple (Some w) (Some d)) \<and> w \<le> 10)"
proof -
  let ?c1 = "(10, ''doc.dvi'', ''doc.pdf'', ''dvipdf'')" and ?c2 = "(20, ''doc.fig'', ''doc.pdf'', ''fig2pdf'')"
  let ?P = "\<lparr>modules = [''fig2pdf'' \<mapsto> ''fig2pdf'', ''dvipdf'' \<mapsto> ''dvipdf''],
         path = None, load_log = [''fig2pdf'', ''dvipdf'']\<rparr>"
  have a2: "?c1 \<in> set [?c2, ?c1]" and a3: "?c2 \<in> set [?c2, ?c1]" by simp_all
  have a4: "c_weight ?c1 < c_weight ?c2" by simp
  have acc: "accepts (site [''doc.fig'', ''doc.dvi''] [''fig2pdf'', ''dvipdf''] [] []) ?P ?c1"
    by (simp add: accepts_def site_def)
  from weight_order [OF fig_dvi_enumerate a2 a3 a4 fig_dvi_call] acc
  show ?thesis by simp
qed

text \<open>
  C8: every candidate that the enumeration records has a source that exists; so has every
  candidate for which \<open>convert\<close> is called; and a returned tuple \<open>(weight, dep)\<close> holds the
  weight of such a candidate and the node that its plugin's \<open>convert\<close> gave for it.
\<close>

theorem sources_exist:
  assumes "call W target safe C = (r, tried, C')"
  shows "(\<forall>conv P'. enumerate_rules W target safe C = (Next conv, P') \<longrightarrow>
            (\<forall>c\<in>set conv. exists W (c_source c)))
       \<and> (\<forall>c\<in>set tried. exists W (c_source c))
       \<and> (\<forall>w d. r = Inr (Tuple (Some w) (Some d)) \<longrightarrow>
            (\<exists>c\<in>set tried. c_weight c = w \<and> exists W (c_source c)
               \<and> plugin_convert W (plugins C') c = Some d))"
proof -
  obtain out P' where e: "enumerate_rules W target safe C = (out, P')"
    by (cases "enumerate_rules W target safe C")
  have recorded: "\<forall>c\<in>set conv. exists W (c_source c)"
    if "enumerate_rules W target safe C = (Next conv, Q)" for conv Q
    using enumerate_next [OF that] by simp
  show ?thesis
  proof (cases out)
    case (Next conv)
    have en: "enumerate_rules W target safe C = (Next conv, P')" using e Next by simp
    have c: "call W target safe C
        = (fst (try_loop W P' (sort conv)), snd (try_loop W P' (sort conv)), C\<lparr>plugins := P'\<rparr>)"
      using call_next [OF en] .
    with assms have t: "try_loop W P' (sort conv) = (r, tried)" and c': "C' = C\<lparr>plugins := P'\<rparr>"
      by (simp_all add: prod_eq_iff)
    have ok: "\<forall>c\<in>set (sort conv). exists W (c_source c) \<and> c_plugin c \<in> dom (modules P')"
      using enumerate_next [OF en] by simp
    obtain rest where l: "sort conv = tried @ rest" using try_loop_prefix [OF t] by blast
    have tr: "\<forall>c\<in>set tried. exists W (c_source c)"
    proof
      fix c assume "c \<in> set tried"
      then have "c \<in> set (sort conv)" unfolding l by simp
      with ok show "exists W (c_source c)" by blast
    qed
    have res: "\<exists>c\<in>set tried. c_weight c = w \<and> exists W (c_source c)
               \<and> plugin_convert W (plugins C') c = Some d"
      if "r = Inr (Tuple (Some w) (Some d))" for w d
    proof -
      have reg: "\<forall>c\<in>set (sort conv). c_plugin c \<in> dom (modules P')" using ok by blast
      from try_loop_result [OF reg t] that obtain pre c d' where
        p: "tried = pre @ [c]" "plugin_convert W P' c = Some d'"
           "r = Inr (Tuple (Some (c_weight c)) (Some d'))"
        by auto
      with that have "c_weight c = w" "d' = d" by simp_all
      moreover have "c \<in> set tried" using p(1) by simp
      ultimately show ?thesis using p(2) tr c' by auto
    qed
    from recorded tr res show ?thesis by blast
  next
    case (Raised x)
    with assms e have "tried = []" "r = Inl x" by (simp_all add: call_def)
    with recorded show ?thesis by auto
  next
    case (Returned v)
    with e have "v = DependLeaf target"
      unfolding enumerate_rules_def using dests_loop_returned by blast
    with assms e Returned have "tried = []" "r = Inr (DependLeaf target)"
      by (simp_all add: call_def)
    with recorded show ?thesis by auto
  qed
qed

theorem sources_exist_witness:
  "exists (site [''doc.fig'', ''doc.dvi''] [''fig2pdf'', ''dvipdf''] [] []) ''doc.fig''
   \<and> exists (site [''doc.fig'', ''doc.dvi''] [''fig2pdf'', ''dvipdf''] [] []) ''doc.dvi''
   \<and> (\<exists>c\<in>set [(10, ''doc.dvi'', ''doc.pdf'', ''dvipdf'')]. c_weight c = 10
        \<and> exists (site [''doc.fig'', ''doc.dvi''] [''fig2pdf'', ''dvipdf''] [] []) (c_source c))"
  using sources_exist [OF fig_dvi_call] fig_dvi_enumerate by simp

section \<open>Equal weights\<close>

text \<open>
  C1 on the code: \<open>add_rule\<close> puts the newer entry \<open>dvipdfm\<close> in front of \<open>dvipdf\<close>, and the
  enumeration records the candidates in that order. \<open>conv.sort()\<close> then compares whole
  tuples, so that with equal weight, source and target the plugin name decides: \<open>convert\<close>
  of the older \<open>dvipdf\<close> is called first (both plugins decline in the first environment,
  so that both calls are seen), and its node is the one returned when both accept.
\<close>

theorem tie_order:
  "enumerate_rules (site [''doc.dvi''] [''dvipdf'', ''dvipdfm''] [] [''dvipdf'', ''dvipdfm''])
       ''doc.pdf'' False tie_converter
     = (Next [(10, ''doc.dvi'', ''doc.pdf'', ''dvipdfm''), (10, ''doc.dvi'', ''doc.pdf'', ''dvipdf'')],
        \<lparr>modules = [''dvipdfm'' \<mapsto> ''dvipdfm'', ''dvipdf'' \<mapsto> ''dvipdf''],
         path = None, load_log = [''dvipdfm'', ''dvipdf'']\<rparr>)
   \<and> fst (snd (call (site [''doc.dvi''] [''dvipdf'', ''dvipdfm''] [] [''dvipdf'', ''dvipdfm''])
                  ''doc.pdf'' False tie_converter))
     = [(10, ''doc.dvi'', ''doc.pdf'', ''dvipdf''), (10, ''doc.dvi'', ''doc.pdf'', ''dvipdfm'')]
   \<and> fst (call (site [''doc.dvi''] [''dvipdf'', ''dvipdfm''] [] []) ''doc.pdf'' False tie_converter)
     = Inr (Tuple (Some 10) (Some ''dvipdf doc.dvi doc.pdf''))"
  by (simp add: call_def enumerate_rules_def tie_rules tie_plugins site_def ev register_def
      search_def Plugins_init_def getitem_def Let_def)

text \<open>
  C2 on the code: in safe mode, with \<open>doc.pdf\<close> and \<open>doc.dvi\<close> on disk and a rule that
  produces \<open>.dvi\<close> files, the call returns the object \<open>DependLeaf(env, target)\<close> itself, which
  is not a tuple.
\<close>

theorem safe_return_not_pair:
  "fst (call (site [''doc.pdf'', ''doc.dvi''] [''dvipdf''] [] []) ''doc.pdf'' True
        \<lparr>rules = pdf_rules, plugins = Plugins_init None\<rparr>) = Inr (DependLeaf ''doc.pdf'')
   \<and> \<not> is_pair (DependLeaf ''doc.pdf'' :: string retval)"
  by (simp add: call_def enumerate_rules_def pdf_rules_def may_produce_def site_def ev
      Plugins_init_def)

section \<open>The keys of the rule table\<close>






section \<open>Plugins that cannot be found or loaded\<close>

text \<open>
  C6, as the code has it: when the module is not in the registry and neither search finds
  it (the current directory, then the configured path when there is one), \<open>register\<close>
  returns 0, raises nothing and leaves the registry as it is, and the loop of \<open>__call__\<close>
  over the entries goes on with the next entry without recording a candidate.
\<close>

theorem register_not_found:
  assumes "name \<notin> dom (modules P)" and "search W P name = None"
  shows "register W name P = (Inr 0, P)
       \<and> mods_loop W source target ((weight, name) # mods) P conv
           = mods_loop W source target mods P conv"
  using assms by (simp add: register_def)

text \<open>
  The claim as stated also covers a module that is found and fails to load. There
  \<open>register\<close> does not return 0: \<open>imp.load_module\<close> is called outside the \<open>try\<close> blocks,
  the exception leaves \<open>register\<close> and, through it, \<open>__call__\<close>.
\<close>

theorem register_not_found_counterexample:
  "register (site [''doc.dvi''] [''dvipdf''] [''dvipdf''] []) ''dvipdf'' (Plugins_init None)
     = (Inl (LoadRaised ''dvipdf''), \<lparr>modules = Map.empty, path = None, load_log = [''dvipdf'']\<rparr>)
   \<and> fst (call (site [''doc.dvi''] [''dvipdf''] [''dvipdf''] []) ''doc.pdf'' False
        \<lparr>rules = [(to_pdf, [(from_dvi, [(10, ''dvipdf'')])])], plugins = Plugins_init None\<rparr>)
     = Inl (LoadRaised ''dvipdf'')"
  by (simp add: call_def enumerate_rules_def site_def ev register_def search_def Plugins_init_def)

theorem register_not_found_witness:
  "register (site [''doc.dvi''] [] [] []) ''dvipdf'' (Plugins_init (Some [''/usr/share/rubber'']))
     = (Inr 0, Plugins_init (Some [''/usr/share/rubber'']))
   \<and> call (site [''doc.dvi''] [''dvipdfm''] [] []) ''doc.pdf'' False
        \<lparr>rules = [(to_pdf, [(from_dvi, [(10, ''dvipdf''), (20, ''dvipdfm'')])])],
         plugins = Plugins_init None\<rparr>
     = (Inr (Tuple (Some 20) (Some ''dvipdfm doc.dvi doc.pdf'')),
        [(20, ''doc.dvi'', ''doc.pdf'', ''dvipdfm'')],
        \<lparr>rules = [(to_pdf, [(from_dvi, [(10, ''dvipdf''), (20, ''dvipdfm'')])])],
         plugins = \<lparr>modules = [''dvipdfm'' \<mapsto> ''dvipdfm''], path = None, load_log = [''dvipdfm'']\<rparr>\<rparr>)"
proof -
  let ?V = "site [''doc.dvi''] [] [] []"
  let ?Q = "Plugins_init (Some [''/usr/share/rubber'']) :: string plugins"
  let ?W = "site [''doc.dvi''] [''dvipdfm''] [] []"
  let ?P = "Plugins_init None :: string plugins"
  have a1: "''dvipdf'' \<notin> dom (modules ?Q)" by (simp add: Plugins_init_def)
  have a2: "search ?V ?Q ''dvipdf'' = None" by (simp add: search_def site_def Plugins_init_def)
  have b1: "''dvipdf'' \<notin> dom (modules ?P)" by (simp add: Plugins_init_def)
  have b2: "search ?W ?P ''dvipdf'' = None" by (simp add: search_def site_def Plugins_init_def)
  have skip: "mods_loop ?W ''doc.dvi'' ''doc.pdf'' [(10, ''dvipdf''), (20, ''dvipdfm'')] ?P []
      = mods_loop ?W ''doc.dvi'' ''doc.pdf'' [(20, ''dvipdfm'')] ?P []"
    using register_not_found [OF b1 b2] by simp
  have rest: "mods_loop ?W ''doc.dvi'' ''doc.pdf'' [(20, ''dvipdfm'')] ?P []
      = (Next [(20, ''doc.dvi'', ''doc.pdf'', ''dvipdfm'')],
         \<lparr>modules = [''dvipdfm'' \<mapsto> ''dvipdfm''], path = None, load_log = [''dvipdfm'']\<rparr>)"
    by (simp add: register_def search_def site_def Plugins_init_def)
  have "call ?W ''doc.pdf'' False
        \<lparr>rules = [(to_pdf, [(from_dvi, [(10, ''dvipdf''), (20, ''dvipdfm'')])])], plugins = ?P\<rparr>
     = (Inr (Tuple (Some 20) (Some ''dvipdfm doc.dvi doc.pdf'')),
        [(20, ''doc.dvi'', ''doc.pdf'', ''dvipdfm'')],
        \<lparr>rules = [(to_pdf, [(from_dvi, [(10, ''dvipdf''), (20, ''dvipdfm'')])])],
         plugins = \<lparr>modules = [''dvipdfm'' \<mapsto> ''dvipdfm''], path = None, load_log = [''dvipdfm'']\<rparr>\<rparr>)"
    unfolding call_def enumerate_rules_def
    using skip rest by (simp add: site_def ev getitem_def)
  with register_not_found [OF a1 a2, of "''doc.dvi''" "''doc.pdf''" 10 "[]" "[]"]
  show ?thesis by simp
qed

section \<open>What a call changes\<close>

text \<open>
  C10, as the code has it: \<open>__call__\<close> never changes the rule table, and it can only add
  modules to the registry. When it returns a tuple (so that neither the safe-mode return
  was taken nor an exception left it), \<open>register\<close> was called for every plugin named by an
  entry whose pattern matches the target and whose expanded source exists: each of them is
  in the registry after the call, unless neither search finds it. This includes the
  plugins whose \<open>convert\<close> is never called and the calls that return \<open>(None, None)\<close>.
\<close>

theorem call_effects:
  assumes "call W target safe C = (r, tried, C')"
  shows "rules C' = rules C
       \<and> path (plugins C') = path (plugins C)
       \<and> modules (plugins C) \<subseteq>\<^sub>m modules (plugins C')
       \<and> ((\<exists>a b. r = Inr (Tuple a b)) \<longrightarrow>
            (\<forall>dest items g src mods w md.
               (dest, items) \<in> set (rules C) \<and> re_match W dest target = Some g
               \<and> (src, mods) \<in> set items \<and> exists W (re_expand W g src)
               \<and> (w, md) \<in> set mods \<longrightarrow>
                 md \<in> dom (modules (plugins C')) \<or> search W (plugins C) md = None))"
proof -
  obtain out P' where e: "enumerate_rules W target safe C = (out, P')"
    by (cases "enumerate_rules W target safe C")
  have post: "loop_post W (plugins C) [] out P'" using enumerate_post [OF e] .
  have c': "C' = C\<lparr>plugins := P'\<rparr>"
    using assms e by (auto simp: call_def split: flow.splits prod.splits)
  have frame: "rules C' = rules C" "path (plugins C') = path (plugins C)"
    "modules (plugins C) \<subseteq>\<^sub>m modules (plugins C')"
    using c' post by (simp_all add: loop_post_def)
  have reg: "md \<in> dom (modules (plugins C')) \<or> search W (plugins C) md = None"
    if "r = Inr (Tuple a b)" "(dest, items) \<in> set (rules C)" "re_match W dest target = Some g"
      "(src, mods) \<in> set items" "exists W (re_expand W g src)" "(w, md) \<in> set mods"
    for a b dest items g src mods w md
  proof -
    have "out \<noteq> Returned (Tuple a b)"
      using e dests_loop_returned unfolding enumerate_rules_def by fastforce
    with assms e that(1) obtain conv where "out = Next conv"
      by (cases out) (auto simp: call_def split: prod.splits)
    with e have "dests_loop W (rules C) safe target (rules C) (plugins C) [] = (Next conv, P')"
      by (simp add: enumerate_rules_def)
    from dests_loop_registered [OF this that(2-6)] c' show ?thesis by simp
  qed
  show ?thesis
  proof (intro conjI impI allI)
    fix dest items g src mods w md
    assume "\<exists>a b. r = Inr (Tuple a b)"
      and "(dest, items) \<in> set (rules C) \<and> re_match W dest target = Some g
         \<and> (src, mods) \<in> set items \<and> exists W (re_expand W g src) \<and> (w, md) \<in> set mods"
    then show "md \<in> dom (modules (plugins C')) \<or> search W (plugins C) md = None"
      using reg by (elim exE conjE)
  qed (use frame in simp_all)
qed

text \<open>
  The claim as stated, every such plugin registered in every call, fails in safe mode: the
  return at line 280 comes before the loop over the entries, so the plugin \<open>dvipdf\<close>, which
  is installed and named by the entry of the existing source \<open>doc.dvi\<close>, is not registered.
\<close>

theorem call_effects_counterexample:
  "exists (site [''doc.pdf'', ''doc.dvi''] [''dvipdf''] [] []) (stem_expand ''doc'' from_dvi)
   \<and> stem_match to_pdf ''doc.pdf'' = Some ''doc''
   \<and> search (site [''doc.pdf'', ''doc.dvi''] [''dvipdf''] [] []) (Plugins_init None) ''dvipdf''
       = Some ''dvipdf.py''
   \<and> call (site [''doc.pdf'', ''doc.dvi''] [''dvipdf''] [] []) ''doc.pdf'' True
        \<lparr>rules = pdf_rules, plugins = Plugins_init None\<rparr>
       = (Inr (DependLeaf ''doc.pdf''), [], \<lparr>rules = pdf_rules, plugins = Plugins_init None\<rparr>)
   \<and> ''dvipdf'' \<notin> dom (modules (Plugins_init None :: string plugins))"
  by (simp add: call_def enumerate_rules_def pdf_rules_def may_produce_def site_def ev
      search_def Plugins_init_def)

lemma two_rules_call:
  "call (site [''doc.dvi''] [''dvipdf'', ''dvipdfm''] [] []) ''doc.pdf'' False
        \<lparr>rules = two_rules, plugins = Plugins_init None\<rparr>
     = (Inr (Tuple (Some 10) (Some ''dvipdf doc.dvi doc.pdf'')),
        [(10, ''doc.dvi'', ''doc.pdf'', ''dvipdf'')],
        \<lparr>rules = two_rules,
         plugins = \<lparr>modules = [''dvipdf'' \<mapsto> ''dvipdf'', ''dvipdfm'' \<mapsto> ''dvipdfm''],
                    path = None, load_log = [''dvipdf'', ''dvipdfm'']\<rparr>\<rparr>)"
  by (simp add: call_def enumerate_rules_def two_rules_def site_def ev register_def search_def
      Plugins_init_def getitem_def Let_def)

theorem call_effects_witness:
  "call (site [''doc.dvi''] [''dvipdf'', ''dvipdfm''] [] []) ''doc.pdf'' False
        \<lparr>rules = two_rules, plugins = Plugins_init None\<rparr>
     = (Inr (Tuple (Some 10) (Some ''dvipdf doc.dvi doc.pdf'')),
        [(10, ''doc.dvi'', ''doc.pdf'', ''dvipdf'')],
        \<lparr>rules = two_rules,
         plugins = \<lparr>modules = [''dvipdf'' \<mapsto> ''dvipdf'', ''dvipdfm'' \<mapsto> ''dvipdfm''],
                    path = None, load_log = [''dvipdf'', ''dvipdfm'']\<rparr>\<rparr>)
   \<and> ''dvipdfm'' \<in> dom [''dvipdf'' \<mapsto> ''dvipdf'', ''dvipdfm'' \<mapsto> ''dvipdfm'']
   \<and> (Map.empty :: string \<rightharpoonup> string) \<subseteq>\<^sub>m [''dvipdf'' \<mapsto> ''dvipdf'', ''dvipdfm'' \<mapsto> ''dvipdfm'']"
  using call_effects [OF two_rules_call] two_rules_call by (simp add: Plugins_init_def)

text \<open>
  C7: when \<open>register x\<close> returns 1 (found and loaded), the next \<open>register x\<close> returns 2
  and leaves the registry as it is, without another load: over the two calls the module
  is given to \<open>imp.load_module\<close> exactly once.
\<close>

theorem register_twice:
  assumes "register W x P = (Inr 1, P1)"
  shows "register W x P1 = (Inr 2, P1) \<and> load_log P1 = load_log P @ [x]
         \<and> load_log (snd (register W x P1)) = load_log P @ [x]"
  using assms by (auto simp: register_def split: if_splits option.splits)

theorem register_twice_witness:
  "register (site [] [''dvipdf''] [] []) ''dvipdf'' (Plugins_init None)
     = (Inr 1, \<lparr>modules = [''dvipdf'' \<mapsto> ''dvipdf''], path = None, load_log = [''dvipdf'']\<rparr>)
   \<and> register (site [] [''dvipdf''] [] []) ''dvipdf''
        \<lparr>modules = [''dvipdf'' \<mapsto> ''dvipdf''], path = None, load_log = [''dvipdf'']\<rparr>
     = (Inr 2, \<lparr>modules = [''dvipdf'' \<mapsto> ''dvipdf''], path = None, load_log = [''dvipdf'']\<rparr>)
   \<and> load_log \<lparr>modules = [''dvipdf'' \<mapsto> ''dvipdf''], path = None, load_log = [''dvipdf'']\<rparr>
     = load_log (Plugins_init None :: string plugins) @ [''dvipdf'']"
proof -
  have h: "register (site [] [''dvipdf''] [] []) ''dvipdf'' (Plugins_init None)
     = (Inr 1, \<lparr>modules = [''dvipdf'' \<mapsto> ''dvipdf''], path = None, load_log = [''dvipdf'']\<rparr>)"
    by (simp add: register_def search_def site_def Plugins_init_def)
  show ?thesis using h register_twice [OF h] by (simp add: Plugins_init_def)
qed

end
